theory Spec2Isabelle
  imports Main "HOL-Library.Multiset"
begin

section \<open>Common data\<close>

text \<open>
  Python and Sage integers are unbounded, so they are \<^typ>\<open>int\<close>. Floor division
  \<open>//\<close> and \<open>%\<close> with a positive divisor agree with \<open>div\<close> and \<open>mod\<close> on \<^typ>\<open>int\<close>.
  Exceptions that leave a function are values of \<open>py_error\<close>.
\<close>

datatype py_error =
    NegativeDimensions    \<comment> \<open>\<open>np.ones\<close> with a negative length\<close>
  | SqrtOfNegative        \<comment> \<open>\<open>int\<close> of the symbolic square root of a negative number\<close>
  | ZeroDivisionError     \<comment> \<open>\<open>0 ** k\<close> with a negative \<open>k\<close>\<close>
  | OverflowError         \<comment> \<open>\<open>p ** k\<close> with a negative \<open>k\<close> and \<open>p\<close> or \<open>k\<close> too large for a float\<close>
  | ValueError            \<comment> \<open>\<open>print\<close> of an integer of more than 4300 digits\<close>
  | FactorizationError    \<comment> \<open>the general factorizer raised outside a \<open>try\<close>\<close>

text \<open>
  \<open>range(start, stop, step)\<close> for a positive step: its length is
  \<open>max 0 ((stop - start + step - 1) // step)\<close>.
\<close>

definition py_range :: "int \<Rightarrow> int \<Rightarrow> int \<Rightarrow> int list" where
  "py_range start stop step =
     map (\<lambda>t. start + int t * step) [0..<nat ((stop - start + step - 1) div step)]"

text \<open>\<open>int(sqrt(x))\<close> for \<open>x \<ge> 0\<close>: the integer part of the square root.\<close>

fun isqrt_below :: "nat \<Rightarrow> nat \<Rightarrow> nat" where
  "isqrt_below 0 n = 0"
| "isqrt_below (Suc k) n = (if Suc k * Suc k \<le> n then Suc k else isqrt_below k n)"

definition isqrt :: "int \<Rightarrow> int" where
  "isqrt x = int (isqrt_below (nat x) (nat x))"






section \<open>Verification (John\_D\_Cook.py, verify\_factorization)\<close>

text \<open>
  \<^verbatim>\<open>
  def verify_factorization(number, factors):
      number = int(number)
      product = 1
      for factor in factors:
          product *= factor
      return product == number
  \<close>
  The \<open>for\<close> loop is a fold over the list with the running product as the state.
\<close>

definition verify_factorization :: "int \<Rightarrow> int list \<Rightarrow> bool" where
  "verify_factorization number factors =
     (let product = fold (\<lambda>factor product. product * factor) factors 1
      in product = number)"

section \<open>The special-prime sieve (RSA\_Multi\_Method.py, generate\_special\_primes)\<close>

text \<open>
  The two numpy arrays are \<^typ>\<open>bool list\<close>s; \<open>sieve[j] = False\<close> is a list update.
  Every index written lies in \<open>range(start, max_idx + 1, p)\<close> with \<open>start > 0\<close>, so it
  is inside the array. The loop \<open>for j in range(start, stop, p): sieve[j] = False\<close>:
\<close>

definition cross_out :: "int \<Rightarrow> int \<Rightarrow> int \<Rightarrow> bool list \<Rightarrow> bool list" where
  "cross_out start stop p sieve = fold (\<lambda>j s. s[nat j := False]) (py_range start stop p) sieve"

text \<open>
  One iteration of \<open>for i in range(1, int(sqrt(max_value)) // 6 + 1)\<close>. The second
  block reads \<open>sieve_5[i]\<close> after the first block has written to \<open>sieve_5\<close>.
\<close>

definition sieve_step :: "int \<Rightarrow> int \<Rightarrow> int \<Rightarrow> bool list \<times> bool list \<Rightarrow> bool list \<times> bool list" where
  "sieve_step max_idx_1 max_idx_5 i = (\<lambda>(sieve_1, sieve_5).
     let (sieve_1, sieve_5) =
           (if sieve_1 ! nat i then
              let p = 6 * i + 1;
                  sieve_1 = cross_out (i + p) (max_idx_1 + 1) p sieve_1;
                  start = (p * 5 - 5) div 6;
                  sieve_5 = (if start > 0 then cross_out start (max_idx_5 + 1) p sieve_5
                             else sieve_5)
              in (sieve_1, sieve_5)
            else (sieve_1, sieve_5))
     in if i \<le> max_idx_5 \<and> sieve_5 ! nat i then
          let p = 6 * i + 5;
              start = (p * 1 - 1) div 6;
              sieve_1 = (if start > 0 then cross_out start (max_idx_1 + 1) p sieve_1
                         else sieve_1);
              start = (p * 5 - 5) div 6;
              sieve_5 = (if start > 0 then cross_out start (max_idx_5 + 1) p sieve_5
                         else sieve_5)
          in (sieve_1, sieve_5)
        else (sieve_1, sieve_5))"

text \<open>
  \<open>np.ones\<close> raises for a negative length, and \<open>int(sqrt(max_value))\<close> raises for a
  negative \<open>max_value\<close>. The timer and the two progress prints do not touch the result
  and are left out.
\<close>

definition generate_special_primes :: "int \<Rightarrow> py_error + int list" where
  "generate_special_primes max_value =
     (let special_primes = [3];
          max_idx_1 = (max_value - 1) div 6;
          max_idx_5 = (max_value - 5) div 6
      in if max_idx_1 + 1 < 0 \<or> max_idx_5 + 1 < 0 then Inl NegativeDimensions
         else if max_value < 0 then Inl SqrtOfNegative
         else
           let sieve_1 = replicate (nat (max_idx_1 + 1)) True;
               sieve_5 = replicate (nat (max_idx_5 + 1)) True;
               (sieve_1, sieve_5) =
                  fold (sieve_step max_idx_1 max_idx_5) [1..isqrt max_value div 6]
                    (sieve_1, sieve_5);
               special_primes =
                  special_primes @ map (\<lambda>i. 6 * i + 1) (filter (\<lambda>i. sieve_1 ! nat i) [1..max_idx_1]);
               special_primes =
                  special_primes @ map (\<lambda>i. 6 * i + 5) (filter (\<lambda>i. sieve_5 ! nat i) [1..max_idx_5])
           in Inr (sort special_primes))"

section \<open>The staged orchestrator (RSA\_Multi\_Method.py, factor\_large\_semiprime)\<close>

text \<open>
  The orchestrator calls Sage for everything number-theoretic. These collaborators are
  parameters of the model:
  \<^item> \<open>sage_factor n\<close> is \<open>factor(n)\<close> as the list of its \<open>(prime, exponent)\<close> pairs,
    \<open>None\<close> when \<open>factor\<close> raises;
  \<^item> \<open>sage_is_prime\<close> is \<open>is_prime\<close>;
  \<^item> \<open>sage_GF q\<close> tells whether \<open>GF(q, 'a')\<close> is constructed (\<open>False\<close>: it raises);
  \<^item> \<open>sage_cyclotomic_is_zero q m r\<close> is the test \<open>eval_value == 0\<close> for
    \<open>cyclotomic_polynomial(m).change_ring(GF(q))\<close> evaluated at \<open>r\<close>, \<open>None\<close> when
    building or evaluating the polynomial raises.
\<close>

record sage =
  sage_factor :: "int \<Rightarrow> (int \<times> nat) list option"
  sage_is_prime :: "int \<Rightarrow> bool"
  sage_GF :: "int \<Rightarrow> bool"
  sage_cyclotomic_is_zero :: "int \<Rightarrow> int \<Rightarrow> int \<Rightarrow> bool option"

text \<open>The \<open>return\<close> statement that ended the run: one per stage, and the final \<open>return []\<close>.\<close>

datatype stage = Direct | SmallPrimes | SpecialPrimes | FiniteField | NoFactors

text \<open>
  The branch shared by stages 2, 3 and 4 once a divisor \<open>p\<close> is found:
  \<^verbatim>\<open>
  other = n // p
  if is_prime(other):
      return [p, other]
  else:
      sub_factors = factor(other)
      result = [p]
      for f, _ in sub_factors:
          result.append(f)
      return sorted(result)
  \<close>
\<close>

definition split_cofactor :: "sage \<Rightarrow> int \<Rightarrow> int \<Rightarrow> py_error + int list" where
  "split_cofactor S n p =
     (let other = n div p
      in if sage_is_prime S other then Inr [p, other]
         else (case sage_factor S other of
                 None \<Rightarrow> Inl FactorizationError
               | Some sub_factors \<Rightarrow> Inr (sort ([p] @ map fst sub_factors))))"

text \<open>
  \<open>for p in primes: if n % p == 0: ... return\<close>. \<open>None\<close>: the loop ended without a
  divisor. \<open>Some r\<close>: the function returned (or raised) \<open>r\<close> at the first divisor.
\<close>

fun trial_division :: "sage \<Rightarrow> int \<Rightarrow> int list \<Rightarrow> (py_error + int list) option" where
  "trial_division S n [] = None"
| "trial_division S n (p # ps) =
     (if n mod p = 0 then Some (split_cofactor S n p) else trial_division S n ps)"

definition small_primes :: "int list" where
  "small_primes = [3, 5, 7, 11, 13, 17, 19, 23, 29, 31, 37, 41, 43, 47, 53, 59, 61, 67]"

text \<open>Stage 3 cuts the special primes into batches of 1000 and scans them in order.\<close>

definition batches :: "int list \<Rightarrow> int list list" where
  "batches special_primes =
     (let batch_size = 1000;
          total_batches = (length special_primes + batch_size - 1) div batch_size
      in map (\<lambda>batch_idx.
                let start_idx = batch_idx * batch_size;
                    end_idx = min ((batch_idx + 1) * batch_size) (length special_primes)
                in take (end_idx - start_idx) (drop start_idx special_primes))
             [0..<total_batches])"

fun trial_division_batches :: "sage \<Rightarrow> int \<Rightarrow> int list list \<Rightarrow> (py_error + int list) option" where
  "trial_division_batches S n [] = None"
| "trial_division_batches S n (current_batch # rest) =
     (case trial_division S n current_batch of
        Some r \<Rightarrow> Some r
      | None \<Rightarrow> trial_division_batches S n rest)"

text \<open>\<open>special_primes[::10]\<close>\<close>

definition every_tenth :: "'a list \<Rightarrow> 'a list" where
  "every_tenth xs = map (\<lambda>i. xs ! (10 * i)) [0..<(length xs + 9) div 10]"

text \<open>
  Stage 4. The innermost \<open>try\<close> swallows every exception of its body, also one raised by
  \<open>factor(other)\<close>: the loop then goes on with the next \<open>m\<close>. \<open>Some r\<close>: the function
  returned \<open>r\<close>.
\<close>

fun cyclotomic_m_loop :: "sage \<Rightarrow> int \<Rightarrow> int \<Rightarrow> int \<Rightarrow> int list \<Rightarrow> int list option" where
  "cyclotomic_m_loop S n p q [] = None"
| "cyclotomic_m_loop S n p q (m # ms) =
     (case sage_cyclotomic_is_zero S q m (n mod p) of
        None \<Rightarrow> cyclotomic_m_loop S n p q ms
      | Some eval_is_zero \<Rightarrow>
          if eval_is_zero \<and> n mod p = 0 then
            (case split_cofactor S n p of
               Inr result \<Rightarrow> Some result
             | Inl e \<Rightarrow> cyclotomic_m_loop S n p q ms)
          else cyclotomic_m_loop S n p q ms)"

text \<open>
  \<open>for k in range(1, max_attempts + 1)\<close>: \<open>q > 10**6\<close> breaks, and so does an
  exception of \<open>GF(q, 'a')\<close>.
\<close>

fun cyclotomic_k_loop :: "sage \<Rightarrow> int \<Rightarrow> int \<Rightarrow> int list \<Rightarrow> int list option" where
  "cyclotomic_k_loop S n p [] = None"
| "cyclotomic_k_loop S n p (k # ks) =
     (let q = p ^ nat k
      in if q > 10 ^ 6 then None
         else if \<not> sage_GF S q then None
         else (case cyclotomic_m_loop S n p q [3..6] of
                 Some result \<Rightarrow> Some result
               | None \<Rightarrow> cyclotomic_k_loop S n p ks))"

fun cyclotomic_p_loop :: "sage \<Rightarrow> int \<Rightarrow> int \<Rightarrow> int list \<Rightarrow> int list option" where
  "cyclotomic_p_loop S n max_attempts [] = None"
| "cyclotomic_p_loop S n max_attempts (p # ps) =
     (case cyclotomic_k_loop S n p [1..max_attempts] of
        Some result \<Rightarrow> Some result
      | None \<Rightarrow> cyclotomic_p_loop S n max_attempts ps)"

text \<open>
  The whole function. \<open>use_parallel\<close> is never read and the prints and timers do not
  touch the result, so they are left out. Stage 1 returns \<open>[Integer(p) for p, _ in
  factors]\<close>: the primes without their exponents. \<open>int(n.sqrt())\<close> raises for a negative
  \<open>n\<close>.
\<close>

definition factor_large_semiprime :: "sage \<Rightarrow> int \<Rightarrow> int \<Rightarrow> int \<Rightarrow> py_error + stage \<times> int list" where
  "factor_large_semiprime S n max_prime max_attempts =
     (case sage_factor S n of
        Some factors \<Rightarrow> Inr (Direct, map fst factors)
      | None \<Rightarrow>
         (case trial_division S n small_primes of
            Some r \<Rightarrow> map_sum id (Pair SmallPrimes) r
          | None \<Rightarrow>
             if n < 0 then Inl SqrtOfNegative
             else
              (case generate_special_primes (min (isqrt n + 1) max_prime) of
                 Inl e \<Rightarrow> Inl e
               | Inr special_primes \<Rightarrow>
                  (case trial_division_batches S n (batches special_primes) of
                     Some r \<Rightarrow> map_sum id (Pair SpecialPrimes) r
                   | None \<Rightarrow>
                      (let selected_primes = every_tenth special_primes
                       in case cyclotomic_p_loop S n max_attempts selected_primes of
                            Some result \<Rightarrow> Inr (FiniteField, result)
                          | None \<Rightarrow> Inr (NoFactors, []))))))"

subsection \<open>A reference implementation of the collaborators\<close>

text \<open>
  Trial division, to run the orchestrator on concrete numbers: the prime factors of
  \<open>n\<close> with multiplicity, in ascending order, trying the divisors from \<open>d\<close> on.
\<close>

function trial_factors :: "nat \<Rightarrow> nat \<Rightarrow> nat list" where
  "trial_factors d n =
     (if n < 2 \<or> d < 2 then []
      else if n < d * d then [n]
      else if n mod d = 0 then d # trial_factors d (n div d)
      else trial_factors (Suc d) n)"
  by pat_completeness auto
termination
proof (relation "measure (\<lambda>(d, n). n - d)")
  show "wf (measure (\<lambda>(d, n). n - d))" by simp
next
  fix d n :: nat
  assume a: "\<not> (n < 2 \<or> d < 2)" "\<not> n < d * d"
  have "d * 2 \<le> d * d" using a by simp
  then have dn: "d < n" using a by linarith
  have "n div d < n" using a by simp
  then show "((d, n div d), (d, n)) \<in> measure (\<lambda>(d, n). n - d)"
    using dn by simp
  show "((Suc d, n), (d, n)) \<in> measure (\<lambda>(d, n). n - d)"
    using dn by simp
qed

declare trial_factors.simps [simp del]

fun group_powers :: "nat list \<Rightarrow> (int \<times> nat) list" where
  "group_powers [] = []"
| "group_powers (p # ps) =
     (case group_powers ps of
        [] \<Rightarrow> [(int p, 1)]
      | (q, e) # rest \<Rightarrow> if int p = q then (q, Suc e) # rest else (int p, 1) # (q, e) # rest)"

text \<open>Sage's \<open>factor\<close> raises for 0 and ignores the sign otherwise.\<close>

definition reference_factor :: "int \<Rightarrow> (int \<times> nat) list option" where
  "reference_factor n = (if n = 0 then None else Some (group_powers (trial_factors 2 (nat \<bar>n\<bar>))))"

definition reference_is_prime :: "int \<Rightarrow> bool" where
  "reference_is_prime n = (2 \<le> n \<and> trial_factors 2 (nat n) = [nat n])"

text \<open>
  The values of the cyclotomic polynomials of index 3 to 6. In \<open>GF(q)\<close>, \<open>q\<close> a power of
  the prime \<open>r\<close>, an integer is zero exactly when \<open>r\<close> divides it.
\<close>

definition cyclotomic_value :: "int \<Rightarrow> int \<Rightarrow> int option" where
  "cyclotomic_value m x =
     (if m = 3 then Some (x * x + x + 1)
      else if m = 4 then Some (x * x + 1)
      else if m = 5 then Some (x * x * x * x + x * x * x + x * x + x + 1)
      else if m = 6 then Some (x * x - x + 1)
      else None)"

definition reference_sage :: sage where
  "reference_sage =
     \<lparr> sage_factor = reference_factor,
       sage_is_prime = reference_is_prime,
       sage_GF = (\<lambda>q. length (remdups (trial_factors 2 (nat q))) = 1),
       sage_cyclotomic_is_zero = (\<lambda>q m x.
          case (trial_factors 2 (nat q), cyclotomic_value m x) of
            (r # _, Some v) \<Rightarrow> Some (v mod int r = 0)
          | _ \<Rightarrow> None) \<rparr>"

text \<open>The same collaborators with a general factorizer that always raises.\<close>

definition failing_factorizer_sage :: sage where
  "failing_factorizer_sage = reference_sage\<lparr>sage_factor := (\<lambda>n. None)\<rparr>"

subsection \<open>Contract of the general factorizer\<close>

text \<open>
  What the proofs below use of \<open>factor\<close> on a positive number when it returns: the
  product of the prime powers is the number, every base is at least 2 and every
  exponent at least 1.
\<close>

definition factorization_of :: "int \<Rightarrow> (int \<times> nat) list \<Rightarrow> bool" where
  "factorization_of n factors =
     (prod_list (map (\<lambda>(p, e). p ^ e) factors) = n \<and> (\<forall>(p, e)\<in>set factors. 2 \<le> p \<and> 1 \<le> e))"

definition factorizer_contract :: "sage \<Rightarrow> bool" where
  "factorizer_contract S =
     (\<forall>n factors. 0 < n \<longrightarrow> sage_factor S n = Some factors \<longrightarrow> factorization_of n factors)"

text \<open>A number is squarefree when no square of a number from 2 on divides it.\<close>

definition squarefree :: "int \<Rightarrow> bool" where
  "squarefree n = (\<forall>d\<in>{2..n}. \<not> d * d dvd n)"

section \<open>The finite-field probe (John\_D\_Cook.py, laplacian\_eigenfunction\_approach)\<close>

text \<open>
  The sympy collaborators are parameters of the model:
  \<^item> \<open>sympy_factor_list p m\<close> is \<open>Poly(x**m - 1, domain=GF(p)).factor_list()[1]\<close>, the
    list of \<open>(factor_poly, multiplicity)\<close>, \<open>None\<close> when building or factoring the
    polynomial raises. A factor polynomial is given by \<open>all_coeffs()\<close>, highest degree
    first, each coefficient converted by \<open>int(c)\<close>; \<open>None\<close> when that conversion raises;
  \<^item> \<open>sympy_isprime\<close> is \<open>isprime\<close>;
  \<^item> \<open>sympy_factorint n\<close> is \<open>factorint(n).items()\<close>, \<open>None\<close> on \<open>MemoryError\<close>.
\<close>

record sympy =
  sympy_factor_list :: "int \<Rightarrow> int \<Rightarrow> (int list option \<times> nat) list option"
  sympy_isprime :: "int \<Rightarrow> bool"
  sympy_factorint :: "int \<Rightarrow> (int \<times> nat) list option"

text \<open>
  \<open>q = p ** k\<close> is an integer for \<open>k \<ge> 0\<close> and a float for \<open>k < 0\<close>; of the float only
  its being one matters.
\<close>

datatype power = IntPower int | FloatPower

text \<open>What the probe prints when \<open>verbose\<close> is set, one constructor per \<open>print\<close>.\<close>

datatype message =
    FieldTooLarge int
  | ExtensionSkipped int
  | OverGF int int
  | FoundNewFactor int
  | ErrorProcessingFactor
  | ErrorFactoringPolynomial int
  | ErrorCreatingField power

text \<open>
  Python refuses to convert an integer of more than 4300 decimal digits to a string
  (\<open>sys.int_max_str_digits\<close>): formatting it in an f-string raises \<open>ValueError\<close>.
\<close>

definition int_max_str_digits :: nat where
  "int_max_str_digits = 4300"

definition too_long :: "int \<Rightarrow> bool" where
  "too_long x = (10 ^ int_max_str_digits \<le> \<bar>x\<bar>)"

text \<open>
  The \<open>print\<close> of a message raises when one of the integers it formats is too long. The
  message about a factor polynomial formats the polynomial, whose coefficients are
  residues modulo \<open>p\<close>, and the exception.
\<close>

fun unprintable :: "message \<Rightarrow> bool" where
  "unprintable (FieldTooLarge q) = too_long q"
| "unprintable (ExtensionSkipped k) = too_long k"
| "unprintable (OverGF q m) = (too_long q \<or> too_long m)"
| "unprintable (FoundNewFactor factor_value) = too_long factor_value"
| "unprintable ErrorProcessingFactor = False"
| "unprintable (ErrorFactoringPolynomial m) = too_long m"
| "unprintable (ErrorCreatingField (IntPower q)) = too_long q"
| "unprintable (ErrorCreatingField FloatPower) = False"

text \<open>
  The state of a probe: the set \<open>factors\<close>, the output printed so far, and, as a ghost
  variable, the values of \<open>m\<close> for which the loop body was entered.
\<close>

record probe_state =
  st_factors :: "int set"
  st_printed :: "message list"
  st_examined :: "int list"

text \<open>\<open>if verbose: print(...)\<close>; \<open>None\<close> when the \<open>print\<close> raises.\<close>

definition say :: "bool \<Rightarrow> message \<Rightarrow> probe_state \<Rightarrow> probe_state option" where
  "say verbose msg st =
     (if verbose then
        (if unprintable msg then None else Some (st\<lparr>st_printed := st_printed st @ [msg]\<rparr>))
      else Some st)"

text \<open>
  \<^verbatim>\<open>
  coeffs = factor_poly.all_coeffs()  # Highest degree first
  factor_value = 0
  for i, c in enumerate(reversed(coeffs)):
      factor_value += int(c) * (p ** i)
  \<close>
\<close>

definition decode_coeffs :: "int \<Rightarrow> int list \<Rightarrow> int" where
  "decode_coeffs p coeffs =
     fold (\<lambda>(i, c) factor_value. factor_value + c * p ^ i) (enumerate 0 (rev coeffs)) 0"

text \<open>
  The handler of the inner \<open>try\<close>: \<open>if verbose: print(f" Error processing factor
  {factor_poly}: {e}")\<close> and \<open>continue\<close>. This message is always printable.
\<close>

definition factor_error_handler :: "bool \<Rightarrow> probe_state \<Rightarrow> probe_state" where
  "factor_error_handler verbose st =
     (if verbose then st\<lparr>st_printed := st_printed st @ [ErrorProcessingFactor]\<rparr> else st)"

text \<open>
  The body of \<open>for fact_tuple in factorization\<close>, with its own \<open>try\<close>. An exception
  while decoding goes to the handler, and so does one raised by the \<open>print\<close> of a new
  factor, which stands before \<open>factors.add\<close>: then the factor is not added.
\<close>

definition process_factor :: "int \<Rightarrow> int \<Rightarrow> bool \<Rightarrow> int list option \<times> nat \<Rightarrow> probe_state \<Rightarrow> probe_state" where
  "process_factor p n verbose fact_tuple st =
     (case fst fact_tuple of
        None \<Rightarrow> factor_error_handler verbose st
      | Some coeffs \<Rightarrow>
          let factor_value = decode_coeffs p coeffs
          in if factor_value \<noteq> 0 \<and> n mod factor_value = 0 then
               if factor_value \<notin> st_factors st then
                 (case say verbose (FoundNewFactor factor_value) st of
                    None \<Rightarrow> factor_error_handler verbose st
                  | Some st \<Rightarrow> st\<lparr>st_factors := insert factor_value (st_factors st)\<rparr>)
               else st
             else st)"

text \<open>
  \<open>for m in range(3, p + 1)\<close>, over the list of the remaining values of \<open>m\<close>. The result
  is the state and whether an exception left the loop, towards the outermost handler:
  that is the case when the \<open>print\<close> at the head of the body raises, or the one in the
  handler of the \<open>try\<close> around the factoring. When factoring raises, \<open>continue\<close> goes to
  the next \<open>m\<close> without reaching the \<open>break\<close> test.
\<close>

fun probe_loop :: "sympy \<Rightarrow> int \<Rightarrow> int \<Rightarrow> int \<Rightarrow> bool \<Rightarrow> int list \<Rightarrow> probe_state \<Rightarrow> bool \<times> probe_state" where
  "probe_loop Y p q n verbose [] st = (False, st)"
| "probe_loop Y p q n verbose (m # ms) st =
     (let st = st\<lparr>st_examined := st_examined st @ [m]\<rparr>
      in case say verbose (OverGF q m) st of
           None \<Rightarrow> (True, st)
         | Some st \<Rightarrow>
            (case sympy_factor_list Y p m of
               None \<Rightarrow>
                 (case say verbose (ErrorFactoringPolynomial m) st of
                    None \<Rightarrow> (True, st)
                  | Some st \<Rightarrow> probe_loop Y p q n verbose ms st)
             | Some factorization \<Rightarrow>
                 let st = fold (process_factor p n verbose) factorization st
                 in if m = p \<or> q mod m = 1 then (False, st)
                    else probe_loop Y p q n verbose ms st))"

text \<open>
  The outermost handler: \<open>if verbose: print(f" Error creating field GF({q}): {e}")\<close>,
  then the function goes on to \<open>return list(factors)\<close>. An exception of this \<open>print\<close>
  leaves the function.
\<close>

definition field_error_handler :: "bool \<Rightarrow> power \<Rightarrow> probe_state \<Rightarrow> py_error + probe_state" where
  "field_error_handler verbose q st =
     (case say verbose (ErrorCreatingField q) st of
        None \<Rightarrow> Inl ValueError
      | Some st \<Rightarrow> Inr st)"

text \<open>
  An integer is too large for a float when it rounds to \<open>2^1024\<close> or more.
\<close>

definition float_overflow :: "int \<Rightarrow> bool" where
  "float_overflow x = (2 ^ 1024 - 2 ^ 970 \<le> \<bar>x\<bar>)"

text \<open>
  The body of the outer \<open>try\<close> for an integer \<open>q\<close>, with its handler. \<open>GF(p)\<close> raises
  for \<open>p \<le> 0\<close>.
\<close>

definition probe_body :: "sympy \<Rightarrow> int \<Rightarrow> int \<Rightarrow> int \<Rightarrow> int \<Rightarrow> bool \<Rightarrow> probe_state \<Rightarrow> py_error + probe_state" where
  "probe_body Y p k q n verbose st =
     (if q > 10 ^ 12 then
        (case say verbose (FieldTooLarge q) st of
           None \<Rightarrow> field_error_handler verbose (IntPower q) st
         | Some st \<Rightarrow> Inr st)
      else if k = 1 then
        (if p \<le> 0 then field_error_handler verbose (IntPower q) st
         else (case probe_loop Y p q n verbose [3..p] st of
                 (True, st) \<Rightarrow> field_error_handler verbose (IntPower q) st
               | (False, st) \<Rightarrow> Inr st))
      else
        (case say verbose (ExtensionSkipped k) st of
           None \<Rightarrow> field_error_handler verbose (IntPower q) st
         | Some st \<Rightarrow> Inr st))"

text \<open>
  The whole probe; the result \<open>list(factors)\<close> is the field \<open>st_factors\<close> of the final
  state (a Python set has no specified order, and the empty list is the empty set).
  \<open>q = p ** k\<close> stands before the \<open>try\<close>. For a negative \<open>k\<close> Python converts \<open>p\<close> and
  \<open>k\<close> to floats first, which raises \<open>OverflowError\<close> when one of them is too large, and
  \<open>0.0 ** k\<close> raises \<open>ZeroDivisionError\<close>; otherwise \<open>q\<close> is a float of absolute value at
  most 1, so \<open>q > 10**12\<close> is false, and \<open>k == 1\<close> is false too.
\<close>

definition laplacian_eigenfunction_approach ::
    "sympy \<Rightarrow> int \<times> int \<times> int \<times> bool \<Rightarrow> py_error + probe_state" where
  "laplacian_eigenfunction_approach Y args =
     (case args of (p, k, n, verbose) \<Rightarrow>
        let st = \<lparr>st_factors = {}, st_printed = [], st_examined = []\<rparr>
        in if k < 0 then
             (if float_overflow p \<or> float_overflow k then Inl OverflowError
              else if p = 0 then Inl ZeroDivisionError
              else (case say verbose (ExtensionSkipped k) st of
                      None \<Rightarrow> field_error_handler verbose FloatPower st
                    | Some st \<Rightarrow> Inr st))
           else probe_body Y p k (p ^ nat k) n verbose st)"


subsection \<open>Contract of the sympy collaborators\<close>

text \<open>
  An irreducible factor of \<open>x^m - 1\<close> over \<open>GF(p)\<close> is monic of degree at least 1, and
  its coefficients are residues modulo \<open>p\<close>, in the symmetric representation
  (between \<open>-p/2\<close> and \<open>p/2\<close>) or the non-negative one (from 0 to \<open>p - 1\<close>). The list is
  \<open>all_coeffs()\<close>, highest degree first.
\<close>

definition monic_residue_poly :: "int \<Rightarrow> int list \<Rightarrow> bool" where
  "monic_residue_poly p coeffs =
     (case coeffs of
        [] \<Rightarrow> False
      | c # cs \<Rightarrow> c = 1 \<and> cs \<noteq> [] \<and> (\<forall>c\<in>set cs. - p < 2 * c \<and> c < p))"

text \<open>
  What the proofs below use of sympy: a number reported prime is at least 2, the keys
  of \<open>factorint(n)\<close> are at least 2 and divide \<open>n\<close>, and the factors of \<open>x^m - 1\<close> are
  as above.
\<close>

definition sympy_contract :: "sympy \<Rightarrow> bool" where
  "sympy_contract Y =
     ((\<forall>x. sympy_isprime Y x \<longrightarrow> 2 \<le> x)
      \<and> (\<forall>n items. 1 \<le> n \<longrightarrow> sympy_factorint Y n = Some items \<longrightarrow>
            (\<forall>(p, e)\<in>set items. 2 \<le> p \<and> p dvd n))
      \<and> (\<forall>p m factorization. 3 \<le> p \<longrightarrow> sympy_factor_list Y p m = Some factorization \<longrightarrow>
            (\<forall>(factor_poly, multiplicity)\<in>set factorization.
               \<forall>coeffs. factor_poly = Some coeffs \<longrightarrow> monic_residue_poly p coeffs)))"

text \<open>
  \<open>factorint(n).items()\<close> by trial division: the key 0 for 0, the key \<open>-1\<close> first for a
  negative number.
\<close>

definition reference_factorint :: "int \<Rightarrow> (int \<times> nat) list option" where
  "reference_factorint n =
     (if n = 0 then Some [(0, 1)]
      else if n < 0 then Some ((- 1, 1) # group_powers (trial_factors 2 (nat (- n))))
      else Some (group_powers (trial_factors 2 (nat n))))"

text \<open>
  Concrete collaborators to run the probe: a table of the factorizations of \<open>x^3 - 1\<close>,
  \<open>x^4 - 1\<close> and \<open>x^5 - 1\<close> over \<open>GF(5)\<close> and of \<open>x^3 - 1\<close> over \<open>GF(7)\<close>, with the
  coefficients in the symmetric representation. The table answers no other request.
\<close>

definition table_sympy :: sympy where
  "table_sympy =
     \<lparr> sympy_factor_list = (\<lambda>p m.
          if p = 5 \<and> m = 3 then Some [(Some [1, -1], 1), (Some [1, 1, 1], 1)]
          else if p = 5 \<and> m = 4 then
            Some [(Some [1, 1], 1), (Some [1, 2], 1), (Some [1, -2], 1), (Some [1, -1], 1)]
          else if p = 5 \<and> m = 5 then Some [(Some [1, -1], 5)]
          else if p = 7 \<and> m = 3 then
            Some [(Some [1, 3], 1), (Some [1, -2], 1), (Some [1, -1], 1)]
          else None),
       sympy_isprime = reference_is_prime,
       sympy_factorint = reference_factorint \<rparr>"

section \<open>The fan-out pipeline (John\_D\_Cook.py, find\_factors\_using\_finite\_fields)\<close>

text \<open>
  The values passed to \<open>factors.add\<close> by the initial factorization, in order; \<open>None\<close>
  when \<open>MemoryError\<close> is raised (then nothing has been added yet).
\<close>

definition initial_additions :: "sympy \<Rightarrow> int \<Rightarrow> int list option" where
  "initial_additions Y n =
     (if sympy_isprime Y n then Some [n]
      else (case sympy_factorint Y n of
              None \<Rightarrow> None
            | Some items \<Rightarrow> Some (concat (map (\<lambda>(p, e). replicate e p) items))))"

text \<open>
  The tasks: one per filtered prime and power, with \<open>verbose = False\<close>. The source walks
  the set \<open>factors\<close> in an unspecified order; the model takes it in ascending order, and
  the result is a union, which does not depend on the order.
\<close>

definition probe_tasks :: "sympy \<Rightarrow> int \<Rightarrow> int list \<Rightarrow> int set \<Rightarrow> (int \<times> int \<times> int \<times> bool) list" where
  "probe_tasks Y n max_power_list factors =
     (let prime_factors = filter (\<lambda>p. sympy_isprime Y p \<and> p mod 6 \<in> {1, 5}) (sorted_list_of_set factors)
      in concat (map (\<lambda>p. map (\<lambda>k. (p, k, n, False)) max_power_list) prime_factors))"

text \<open>\<open>pool.map\<close>: the results of all tasks, or the exception of the first task that raised.\<close>

fun pool_map :: "('a \<Rightarrow> py_error + 'b) \<Rightarrow> 'a list \<Rightarrow> py_error + 'b list" where
  "pool_map f [] = Inr []"
| "pool_map f (x # xs) =
     (case f x of
        Inl e \<Rightarrow> Inl e
      | Inr y \<Rightarrow> (case pool_map f xs of Inl e \<Rightarrow> Inl e | Inr ys \<Rightarrow> Inr (y # ys)))"

definition find_factors_using_finite_fields :: "sympy \<Rightarrow> int \<Rightarrow> int list \<Rightarrow> py_error + int list" where
  "find_factors_using_finite_fields Y n max_power_list =
     (case initial_additions Y n of
        None \<Rightarrow> Inr (sorted_list_of_set {})
      | Some additions \<Rightarrow>
          let factors = fold insert additions {};
              args_list = probe_tasks Y n max_power_list factors
          in (case pool_map (laplacian_eigenfunction_approach Y) args_list of
                Inl e \<Rightarrow> Inl e
              | Inr results \<Rightarrow>
                  let factors = fold (\<lambda>result factors. factors \<union> st_factors result) results factors
                  in Inr (sorted_list_of_set factors)))"

text \<open>
  The successive values of a loop variable: the state before the loop and after each
  iteration.
\<close>

primrec states_after :: "('a \<Rightarrow> 's \<Rightarrow> 's) \<Rightarrow> 'a list \<Rightarrow> 's \<Rightarrow> 's list" where
  "states_after f [] s = [s]"
| "states_after f (x # xs) s = s # states_after f xs (f x s)"

text \<open>
  Every value the variable \<open>factors\<close> of the pipeline takes during a run, in order: after
  each \<open>factors.add\<close> and after each \<open>factors.update\<close>.
\<close>

definition factor_set_history :: "sympy \<Rightarrow> int \<Rightarrow> int list \<Rightarrow> py_error + int set list" where
  "factor_set_history Y n max_power_list =
     (case initial_additions Y n of
        None \<Rightarrow> Inr [{}]
      | Some additions \<Rightarrow>
          let history = states_after insert additions {};
              factors = last history;
              args_list = probe_tasks Y n max_power_list factors
          in (case pool_map (laplacian_eigenfunction_approach Y) args_list of
                Inl e \<Rightarrow> Inl e
              | Inr results \<Rightarrow>
                  Inr (history @ tl (states_after (\<lambda>result factors. factors \<union> st_factors result)
                                       results factors))))"

text \<open>Every element of a factor set is at least 2 and divides the target.\<close>

definition admissible :: "int \<Rightarrow> int set \<Rightarrow> bool" where
  "admissible n F = (\<forall>v\<in>F. 2 \<le> v \<and> v dvd n)"

section \<open>Properties of the verification\<close>

lemma fold_mult_prod_list:
  "fold (\<lambda>factor product. product * factor) xs (a::int) = a * prod_list xs"
  by (induction xs arbitrary: a) (simp_all add: mult.assoc)

lemma verify_factorization_prod_list:
  "verify_factorization n fs \<longleftrightarrow> prod_list fs = n"
  by (simp add: verify_factorization_def fold_mult_prod_list)

lemma map_sum_Pair_stage:
  "map_sum id (Pair s) r = Inr (t, fs) \<Longrightarrow> s = t \<and> r = Inr fs"
  by (cases r) auto

lemma no_factors_result:
  "factor_large_semiprime S n max_prime max_attempts = Inr (NoFactors, fs) \<Longrightarrow> fs = []"
  by (auto simp: factor_large_semiprime_def Let_def dest: map_sum_Pair_stage
      split: option.splits sum.splits if_splits)

text \<open>
  C9. \<open>verify_factorization\<close> accepts the empty factor list exactly for the number 1 (the
  empty product), so the empty list that the orchestrator returns after all stages have
  failed is rejected for every target greater than 1.
\<close>

theorem verify_empty_factor_list:
  "(verify_factorization n [] \<longleftrightarrow> n = 1)
   \<and> (1 < n \<longrightarrow> factor_large_semiprime S n max_prime max_attempts = Inr (NoFactors, fs)
        \<longrightarrow> \<not> verify_factorization n fs)"
proof
  show "verify_factorization n [] \<longleftrightarrow> n = 1"
    by (auto simp: verify_factorization_def)
  show "1 < n \<longrightarrow> factor_large_semiprime S n max_prime max_attempts = Inr (NoFactors, fs)
        \<longrightarrow> \<not> verify_factorization n fs"
    using no_factors_result [of S n max_prime max_attempts fs]
    by (auto simp: verify_factorization_def)
qed

theorem verify_empty_factor_list_witness:
  "(1::int) < 2
   \<and> factor_large_semiprime failing_factorizer_sage 2 10000 3 = Inr (NoFactors, [])
   \<and> \<not> verify_factorization 2 []"
proof -
  have run: "factor_large_semiprime failing_factorizer_sage 2 10000 3 = Inr (NoFactors, [])"
    by code_simp
  with verify_empty_factor_list [of 2 failing_factorizer_sage 10000 3 "[]"]
  show ?thesis by simp
qed

section \<open>Properties of the coefficient decoding\<close>

lemma fold_enumerate_sum:
  "fold (\<lambda>(i, c) v. v + c * p ^ i) (enumerate k cs) (a::int)
     = a + (\<Sum>i<length cs. cs ! i * p ^ (k + i))"
proof (induction cs arbitrary: k a)
  case Nil
  then show ?case by simp
next
  case (Cons c cs)
  have "(\<Sum>i<Suc (length cs). (c # cs) ! i * p ^ (k + i))
          = c * p ^ k + (\<Sum>i<length cs. cs ! i * p ^ (Suc k + i))"
    by (simp only: list.size sum.lessThan_Suc_shift) simp
  with Cons.IH [of "Suc k" "a + c * p ^ k"] show ?case
    by simp
qed

text \<open>
  C8. The probe decodes a factor polynomial as a base-\<open>p\<close> number whose digits are the
  coefficients taken low degree first: for the low-degree-first list \<open>[c0, ..., cd]\<close>
  (the reverse of what \<open>all_coeffs()\<close> returns) the decoded value is the sum of
  \<open>ci * p^i\<close>, and the coefficients \<open>[1, 2]\<close> in base 5 decode to 11.
\<close>

theorem decode_coeffs_low_degree_first:
  "decode_coeffs p (rev cs) = (\<Sum>i<length cs. cs ! i * p ^ i)
   \<and> decode_coeffs 5 (rev [1, 2]) = 11"
proof
  show "decode_coeffs p (rev cs) = (\<Sum>i<length cs. cs ! i * p ^ i)"
    using fold_enumerate_sum [of p 0 cs 0] by (simp add: decode_coeffs_def)
  show "decode_coeffs 5 (rev [1, 2]) = 11"
    by (simp add: decode_coeffs_def)
qed

text \<open>
  A monic polynomial of degree at least 1 with residues as coefficients decodes to a
  number that is at least 2, for \<open>p \<ge> 3\<close>.
\<close>

lemma decode_coeffs_snoc:
  "decode_coeffs p (cs @ [c0]) = c0 + p * decode_coeffs p cs"
proof -
  have "decode_coeffs p (cs @ [c0]) = (\<Sum>i<Suc (length cs). (c0 # rev cs) ! i * p ^ i)"
    using fold_enumerate_sum [of p 0 "c0 # rev cs" 0] by (simp add: decode_coeffs_def)
  also have "\<dots> = c0 + (\<Sum>i<length cs. rev cs ! i * p ^ Suc i)"
    by (simp only: sum.lessThan_Suc_shift) simp
  also have "(\<Sum>i<length cs. rev cs ! i * p ^ Suc i) = p * (\<Sum>i<length cs. rev cs ! i * p ^ i)"
    by (simp add: sum_distrib_left mult.commute mult.left_commute)
  also have "(\<Sum>i<length cs. rev cs ! i * p ^ i) = decode_coeffs p cs"
    using fold_enumerate_sum [of p 0 "rev cs" 0] by (simp add: decode_coeffs_def)
  finally show ?thesis .
qed

lemma decode_monic_lower_bound:
  "1 \<le> p \<Longrightarrow> \<forall>c\<in>set cs. - p < 2 * c \<Longrightarrow> p ^ length cs + 1 \<le> 2 * decode_coeffs p (1 # cs)"
proof (induction cs rule: rev_induct)
  case Nil
  show ?case by (simp add: decode_coeffs_def)
next
  case (snoc c cs)
  have ih: "p ^ length cs + 1 \<le> 2 * decode_coeffs p (1 # cs)"
    using snoc by simp
  have c: "1 - p \<le> 2 * c"
    using snoc.prems by simp
  have "decode_coeffs p (1 # cs @ [c]) = c + p * decode_coeffs p (1 # cs)"
    using decode_coeffs_snoc [of p "1 # cs" c] by simp
  then have "2 * decode_coeffs p (1 # cs @ [c]) = 2 * c + p * (2 * decode_coeffs p (1 # cs))"
    by simp
  also have "\<dots> \<ge> (1 - p) + p * (p ^ length cs + 1)"
    using c ih snoc.prems(1) by (intro add_mono mult_left_mono) simp_all
  finally show ?case
    by (simp add: algebra_simps)
qed

lemma decode_monic_residue_poly:
  assumes "3 \<le> p" "monic_residue_poly p coeffs"
  shows "2 \<le> decode_coeffs p coeffs"
proof -
  from assms(2) obtain cs where cs: "coeffs = 1 # cs" "cs \<noteq> []" "\<forall>c\<in>set cs. - p < 2 * c"
    by (auto simp: monic_residue_poly_def split: list.splits)
  have "p ^ length cs + 1 \<le> 2 * decode_coeffs p coeffs"
    unfolding cs(1) using assms(1) cs(3) by (intro decode_monic_lower_bound) simp_all
  moreover have "3 ^ 1 \<le> p ^ length cs"
  proof -
    have "1 \<le> length cs" using cs(2) by (cases cs) simp_all
    then have "p ^ 1 \<le> p ^ length cs"
      using assms(1) by (intro power_increasing) simp_all
    then show ?thesis using assms(1) by simp
  qed
  ultimately show ?thesis by simp
qed

section \<open>Properties of the sieve\<close>

text \<open>
  The reads \<open>sieve_1[i]\<close> of the outer loop stay inside the array (the read
  \<open>sieve_5[i]\<close> is guarded by \<open>i <= max_idx_5\<close>), and the arrays keep their length.
\<close>

lemma isqrt_below_square: "isqrt_below k n * isqrt_below k n \<le> n"
  by (induction k) simp_all

lemma isqrt_square: "0 \<le> x \<Longrightarrow> isqrt x * isqrt x \<le> x"
proof -
  assume "0 \<le> x"
  have "int (isqrt_below (nat x) (nat x) * isqrt_below (nat x) (nat x)) \<le> int (nat x)"
    using isqrt_below_square [of "nat x" "nat x"] by (simp only: of_nat_le_iff)
  with \<open>0 \<le> x\<close> show ?thesis by (simp add: isqrt_def)
qed

lemma length_cross_out [simp]: "length (cross_out start stop p sieve) = length sieve"
proof -
  have "length (fold (\<lambda>j s. s[nat j := False]) js sieve) = length sieve" for js
    by (induction js arbitrary: sieve) simp_all
  then show ?thesis by (simp add: cross_out_def)
qed

lemma length_sieve_step:
  "sieve_step m1 m5 i (s1, s5) = (t1, t5) \<Longrightarrow> length t1 = length s1 \<and> length t5 = length s5"
  by (auto simp: sieve_step_def Let_def split: if_splits)

lemma sieve_read_in_range:
  assumes "0 \<le> max_value" "i \<in> set [1..isqrt max_value div 6]"
  shows "nat i < nat ((max_value - 1) div 6 + 1)"
proof -
  let ?r = "isqrt max_value"
  from assms(2) have i: "1 \<le> i" "6 * i \<le> ?r" by auto
  then have r: "6 \<le> ?r" by simp
  have "?r * 2 \<le> ?r * ?r" using r by (intro mult_left_mono) simp_all
  also have "\<dots> \<le> max_value" using assms(1) by (rule isqrt_square)
  finally have "?r \<le> max_value - 1" using r by simp
  with i(2) have "6 * i \<le> max_value - 1" by simp
  then have "i \<le> (max_value - 1) div 6" by simp
  with i(1) show ?thesis by simp
qed

text \<open>
  Every number the sieve returns is 3, or \<open>6i + 1\<close> or \<open>6i + 5\<close> for some \<open>i \<ge> 1\<close>.
\<close>

lemma special_primes_positive:
  assumes "generate_special_primes max_value = Inr special_primes"
  shows "\<forall>p\<in>set special_primes. 3 \<le> p"
proof -
  let ?m1 = "(max_value - 1) div 6" and ?m5 = "(max_value - 5) div 6"
  obtain s1 s5 where f:
    "fold (sieve_step ?m1 ?m5) [1..isqrt max_value div 6]
       (replicate (nat (?m1 + 1)) True, replicate (nat (?m5 + 1)) True) = (s1, s5)"
    by (rule prod.exhaust)
  from assms have "special_primes =
      sort (([3] @ map (\<lambda>i. 6 * i + 1) (filter (\<lambda>i. s1 ! nat i) [1..?m1]))
        @ map (\<lambda>i. 6 * i + 5) (filter (\<lambda>i. s5 ! nat i) [1..?m5]))"
    unfolding generate_special_primes_def Let_def f by (simp split: if_splits)
  then show ?thesis by (auto simp: set_insort_key)
qed

text \<open>
  C2. The sieve is meant to return primes only, each at most the bound, each congruent
  to 1 or 5 modulo 6 apart from 3, in strictly ascending order. It does not return
  primes only: the outer loop starts at \<open>i = 1\<close>, so the prime 5 (index 0 of the
  \<open>6k + 5\<close> array) never crosses out its multiples, and for the bound 25 the result
  contains 25, which is 5 times 5.
\<close>

theorem sieve_25_returns_composite:
  "generate_special_primes 25 = Inr [3, 7, 11, 13, 17, 19, 23, 25] \<and> (25::int) = 5 * 5"
proof
  show "generate_special_primes 25 = Inr [3, 7, 11, 13, 17, 19, 23, 25]"
    by code_simp
  show "(25::int) = 5 * 5"
    by simp
qed

text \<open>
  C3. The sieve on the bound 20 is meant to return \<open>[3, 5, 7, 11, 13, 17, 19]\<close>. The
  collecting loop over the \<open>6k + 5\<close> array starts at index 1, so 5 is left out: the
  result is \<open>[3, 7, 11, 13, 17, 19]\<close>.
\<close>

theorem sieve_20_omits_5:
  "generate_special_primes 20 = Inr [3, 7, 11, 13, 17, 19]"
  by code_simp

section \<open>The reference factorizer meets the contract\<close>

lemma trial_factors_prod:
  "2 \<le> d \<Longrightarrow> 1 \<le> n \<Longrightarrow> prod_list (trial_factors d n) = n"
proof (induction d n rule: trial_factors.induct)
  case (1 d n)
  show ?case
  proof (cases "n < 2 \<or> d < 2")
    case True
    with "1.prems" have "n = 1" by simp
    with True show ?thesis unfolding trial_factors.simps [of d n] by simp
  next
    case False
    note big = False
    show ?thesis
    proof (cases "n < d * d")
      case True
      with big show ?thesis by (simp add: trial_factors.simps [of d n])
    next
      case False
      note sq = False
      show ?thesis
      proof (cases "n mod d = 0")
        case True
        then have n: "d * (n div d) = n" by auto
        have "1 \<le> n div d"
          using n "1.prems" by (cases "n div d") simp_all
        with "1.IH"(1) [OF big sq True] "1.prems"(1)
        have "prod_list (trial_factors d (n div d)) = n div d" by simp
        with big sq True n show ?thesis
          by (simp add: trial_factors.simps [of d n])
      next
        case False
        with "1.IH"(2) [OF big sq False] "1.prems"
        have "prod_list (trial_factors (Suc d) n) = n" by simp
        with big sq False show ?thesis
          by (simp add: trial_factors.simps [of d n])
      qed
    qed
  qed
qed

lemma trial_factors_ge2:
  "x \<in> set (trial_factors d n) \<Longrightarrow> 2 \<le> x"
proof (induction d n rule: trial_factors.induct)
  case (1 d n)
  from "1.prems" show ?case
    unfolding trial_factors.simps [of d n]
    using "1.IH" by (auto split: if_splits)
qed

lemma group_powers_prod:
  "prod_list (map (\<lambda>(p, e). p ^ e) (group_powers ps)) = int (prod_list ps)"
proof (induction ps)
  case Nil
  show ?case by simp
next
  case (Cons p ps)
  then show ?case
    by (cases "group_powers ps") (auto simp: mult.assoc)
qed

lemma group_powers_entries:
  "(q, e) \<in> set (group_powers ps) \<Longrightarrow> (\<exists>p\<in>set ps. q = int p) \<and> 1 \<le> e"
proof (induction ps arbitrary: q e)
  case Nil
  then show ?case by simp
next
  case (Cons p ps)
  show ?case
  proof (cases "group_powers ps")
    case Nil
    with Cons.prems show ?thesis by simp
  next
    case (Cons qe rest)
    obtain q' e' where qe: "qe = (q', e')" by (cases qe)
    have ih: "(\<exists>p\<in>set ps. a = int p) \<and> 1 \<le> b" if "(a, b) \<in> set ((q', e') # rest)" for a b
      using Cons.IH [of a b] that Cons qe by simp
    from Cons.prems Cons qe
    have "(q, e) = (q', Suc e') \<and> int p = q' \<or> (q, e) = (int p, 1) \<or> (q, e) \<in> set ((q', e') # rest)"
      by (auto split: if_splits)
    then show ?thesis
      using ih by auto
  qed
qed

lemma reference_factor_factorization:
  assumes "0 < n" "reference_factor n = Some factors"
  shows "factorization_of n factors"
proof -
  from assms have factors: "factors = group_powers (trial_factors 2 (nat n))"
    by (simp add: reference_factor_def)
  have "prod_list (trial_factors 2 (nat n)) = nat n"
    using assms(1) by (intro trial_factors_prod) simp_all
  then have "prod_list (map (\<lambda>(p, e). p ^ e) factors) = n"
    unfolding factors group_powers_prod using assms(1) by simp
  moreover have "2 \<le> q \<and> 1 \<le> e" if "(q, e) \<in> set factors" for q e
  proof -
    from group_powers_entries [OF that [unfolded factors]]
    obtain p where "p \<in> set (trial_factors 2 (nat n))" "q = int p" "1 \<le> e" by blast
    with trial_factors_ge2 [of p 2 "nat n"] show ?thesis by simp
  qed
  ultimately show ?thesis
    unfolding factorization_of_def by blast
qed

lemma reference_sage_contract: "factorizer_contract reference_sage"
  unfolding factorizer_contract_def
  by (auto simp: reference_sage_def intro: reference_factor_factorization)

lemma factorization_of_divides:
  assumes "factorization_of n factors" "(p, e) \<in> set factors"
  shows "2 \<le> p \<and> p dvd n"
proof -
  from assms have pe: "2 \<le> p" "1 \<le> e" by (auto simp: factorization_of_def)
  have "p ^ e \<in> set (map (\<lambda>(p, e). p ^ e) factors)"
    using assms(2) by force
  then have "p ^ e dvd prod_list (map (\<lambda>(p, e). p ^ e) factors)"
    by (rule prod_list_dvd)
  then have "p ^ e dvd n" using assms(1) by (simp add: factorization_of_def)
  moreover have "p dvd p ^ e" using pe(2) by (simp add: dvd_power)
  ultimately show ?thesis using pe(1) by (blast intro: dvd_trans)
qed

section \<open>Properties of the orchestrator\<close>

lemma prod_list_sort: "prod_list (sort xs) = prod_list (xs :: int list)"
proof -
  have "prod_mset (mset (sort xs)) = prod_mset (mset xs)" by simp
  then show ?thesis by (simp only: prod_mset_prod_list)
qed

lemma squarefree_no_square:
  assumes "squarefree n" "0 < n" "2 \<le> d"
  shows "\<not> d * d dvd n"
proof
  assume dvd: "d * d dvd n"
  then have "d * d \<le> n" using assms(2) by (rule zdvd_imp_le)
  moreover have "d * 2 \<le> d * d" using assms(3) by (intro mult_left_mono) simp_all
  ultimately have "d \<le> n" using assms(3) by linarith
  then have "d \<in> {2..n}" using assms(3) by simp
  with assms(1) dvd show False by (auto simp: squarefree_def)
qed

lemma squarefree_cofactor:
  assumes "squarefree n" "0 < n" "n mod p = 0" "0 < p"
  shows "squarefree (n div p) \<and> 0 < n div p \<and> p * (n div p) = n"
proof -
  have n: "p * (n div p) = n" using assms(3) by auto
  have pos: "0 < n div p"
    using assms(2,4) n by (metis zero_less_mult_pos)
  have "\<not> d * d dvd n div p" if "d \<in> {2..n div p}" for d
  proof
    assume "d * d dvd n div p"
    then have "d * d dvd n" using n by (metis dvd_mult)
    moreover have "2 \<le> d" using that by simp
    ultimately show False using squarefree_no_square [OF assms(1,2)] by blast
  qed
  then show ?thesis using n pos by (simp add: squarefree_def)
qed

lemma squarefree_radical:
  assumes "squarefree n" "0 < n" "factorization_of n factors"
  shows "prod_list (map fst factors) = n"
proof -
  have one: "e = 1" if "(p, e) \<in> set factors" for p e
  proof (rule ccontr)
    assume "e \<noteq> 1"
    from assms(3) that have pe: "2 \<le> p" "1 \<le> e"
      by (auto simp: factorization_of_def)
    with \<open>e \<noteq> 1\<close> have "2 \<le> e" by simp
    then have "p ^ 2 dvd p ^ e" by (rule le_imp_power_dvd)
    moreover have "p ^ e \<in> set (map (\<lambda>(p, e). p ^ e) factors)"
      using that by force
    then have "p ^ e dvd prod_list (map (\<lambda>(p, e). p ^ e) factors)"
      by (rule prod_list_dvd)
    ultimately have "p * p dvd n"
      using assms(3) by (auto simp: factorization_of_def power2_eq_square)
    with squarefree_no_square [OF assms(1,2) pe(1)] show False by simp
  qed
  have "map (\<lambda>(p, e). p ^ e) factors = map fst factors"
    by (rule map_cong) (auto dest: one)
  with assms(3) show ?thesis by (simp add: factorization_of_def)
qed

lemma split_cofactor_product:
  assumes "factorizer_contract S" "squarefree n" "0 < n" "n mod p = 0" "0 < p"
    and "split_cofactor S n p = Inr fs"
  shows "prod_list fs = n"
proof -
  from squarefree_cofactor [OF assms(2-5)]
  have other: "squarefree (n div p)" "0 < n div p" "p * (n div p) = n" by simp_all
  show ?thesis
  proof (cases "sage_is_prime S (n div p)")
    case True
    with assms(6) other(3) show ?thesis by (auto simp: split_cofactor_def)
  next
    case False
    with assms(6) obtain sub_factors where sub: "sage_factor S (n div p) = Some sub_factors"
      "fs = sort (p # map fst sub_factors)"
      by (auto simp: split_cofactor_def split: option.splits)
    from assms(1) other(2) sub(1) have "factorization_of (n div p) sub_factors"
      unfolding factorizer_contract_def by blast
    with other have "prod_list (map fst sub_factors) = n div p"
      by (intro squarefree_radical)
    with other(3) show ?thesis unfolding sub(2) by (simp only: prod_list_sort) simp
  qed
qed

lemma trial_division_product:
  assumes "factorizer_contract S" "squarefree n" "0 < n"
  shows "\<forall>p\<in>set ps. 0 < p \<Longrightarrow> trial_division S n ps = Some (Inr fs) \<Longrightarrow> prod_list fs = n"
proof (induction ps)
  case Nil
  then show ?case by simp
next
  case (Cons p ps)
  show ?case
  proof (cases "n mod p = 0")
    case True
    with Cons.prems have "split_cofactor S n p = Inr fs" "0 < p" by simp_all
    with assms True show ?thesis by (intro split_cofactor_product [of S n p fs])
  next
    case False
    with Cons show ?thesis by simp
  qed
qed

lemma trial_division_batches_product:
  assumes "factorizer_contract S" "squarefree n" "0 < n"
  shows "\<forall>b\<in>set bs. \<forall>p\<in>set b. 0 < p \<Longrightarrow> trial_division_batches S n bs = Some (Inr fs)
    \<Longrightarrow> prod_list fs = n"
proof (induction bs)
  case Nil
  then show ?case by simp
next
  case (Cons b bs)
  show ?case
  proof (cases "trial_division S n b")
    case None
    with Cons show ?thesis by simp
  next
    case (Some r)
    with Cons.prems have "trial_division S n b = Some (Inr fs)" "\<forall>p\<in>set b. 0 < p" by simp_all
    with assms show ?thesis by (intro trial_division_product [of S n b fs])
  qed
qed

lemma cyclotomic_m_loop_product:
  assumes "factorizer_contract S" "squarefree n" "0 < n" "0 < p"
  shows "cyclotomic_m_loop S n p q ms = Some fs \<Longrightarrow> prod_list fs = n"
proof (induction ms)
  case Nil
  then show ?case by simp
next
  case (Cons m ms)
  then show ?case
    using split_cofactor_product [OF assms(1-3) _ assms(4), of fs]
    by (auto split: option.splits if_splits sum.splits)
qed

lemma cyclotomic_k_loop_product:
  assumes "factorizer_contract S" "squarefree n" "0 < n" "0 < p"
  shows "cyclotomic_k_loop S n p ks = Some fs \<Longrightarrow> prod_list fs = n"
proof (induction ks)
  case Nil
  then show ?case by simp
next
  case (Cons k ks)
  then show ?case
    using cyclotomic_m_loop_product [OF assms, of "p ^ nat k" "[3..6]" fs]
    by (auto simp: Let_def split: option.splits if_splits)
qed

lemma cyclotomic_p_loop_product:
  assumes "factorizer_contract S" "squarefree n" "0 < n"
  shows "\<forall>p\<in>set ps. 0 < p \<Longrightarrow> cyclotomic_p_loop S n max_attempts ps = Some fs
    \<Longrightarrow> prod_list fs = n"
proof (induction ps)
  case Nil
  then show ?case by simp
next
  case (Cons p ps)
  then show ?case
    using cyclotomic_k_loop_product [OF assms, of p "[1..max_attempts]" fs]
    by (auto split: option.splits)
qed

lemma batches_subset: "b \<in> set (batches xs) \<Longrightarrow> set b \<subseteq> set xs"
  by (auto simp: batches_def Let_def dest!: in_set_takeD in_set_dropD)

lemma every_tenth_subset: "set (every_tenth xs) \<subseteq> set xs"
proof -
  have "10 * i < length xs" if "i < (length xs + 9) div 10" for i
    using that by linarith
  then show ?thesis by (auto simp: every_tenth_def)
qed

text \<open>
  The orchestrator, stage by stage.
\<close>

lemma orchestrator_direct:
  "sage_factor S n = Some factors \<Longrightarrow>
   factor_large_semiprime S n max_prime max_attempts = Inr (Direct, map fst factors)"
  by (simp add: factor_large_semiprime_def)

lemma orchestrator_small:
  "sage_factor S n = None \<Longrightarrow> trial_division S n small_primes = Some r \<Longrightarrow>
   factor_large_semiprime S n max_prime max_attempts = map_sum id (Pair SmallPrimes) r"
  by (simp add: factor_large_semiprime_def)

lemma orchestrator_error:
  "sage_factor S n = None \<Longrightarrow> trial_division S n small_primes = None \<Longrightarrow>
   n < 0 \<or> generate_special_primes (min (isqrt n + 1) max_prime) = Inl e \<Longrightarrow>
   \<exists>e'. factor_large_semiprime S n max_prime max_attempts = Inl e'"
  by (auto simp add: factor_large_semiprime_def)

lemma orchestrator_special:
  "sage_factor S n = None \<Longrightarrow> trial_division S n small_primes = None \<Longrightarrow> \<not> n < 0 \<Longrightarrow>
   generate_special_primes (min (isqrt n + 1) max_prime) = Inr special_primes \<Longrightarrow>
   trial_division_batches S n (batches special_primes) = Some r \<Longrightarrow>
   factor_large_semiprime S n max_prime max_attempts = map_sum id (Pair SpecialPrimes) r"
  by (simp add: factor_large_semiprime_def)

lemma orchestrator_finite_field:
  "sage_factor S n = None \<Longrightarrow> trial_division S n small_primes = None \<Longrightarrow> \<not> n < 0 \<Longrightarrow>
   generate_special_primes (min (isqrt n + 1) max_prime) = Inr special_primes \<Longrightarrow>
   trial_division_batches S n (batches special_primes) = None \<Longrightarrow>
   factor_large_semiprime S n max_prime max_attempts =
     (case cyclotomic_p_loop S n max_attempts (every_tenth special_primes) of
        Some result \<Rightarrow> Inr (FiniteField, result)
      | None \<Rightarrow> Inr (NoFactors, []))"
  by (simp add: factor_large_semiprime_def)

lemma small_stage_product:
  assumes "0 < n" "squarefree n" "factorizer_contract S"
    and "sage_factor S n = None" "trial_division S n small_primes = Some r"
    and "factor_large_semiprime S n max_prime max_attempts = Inr (stage, fs)"
  shows "prod_list fs = n"
proof -
  from orchestrator_small [OF assms(4,5), of max_prime max_attempts] assms(6)
  have "map_sum id (Pair SmallPrimes) r = Inr (stage, fs)" by simp
  then have "r = Inr fs" by (rule map_sum_Pair_stage [THEN conjunct2])
  with assms(5) have run: "trial_division S n small_primes = Some (Inr fs)" by simp
  have pos: "\<forall>p\<in>set small_primes. 0 < p" by (simp add: small_primes_def)
  from assms(3,2,1) pos run show ?thesis by (rule trial_division_product)
qed

lemma special_stage_product:
  assumes "0 < n" "squarefree n" "factorizer_contract S"
    and "sage_factor S n = None" "trial_division S n small_primes = None"
    and "generate_special_primes (min (isqrt n + 1) max_prime) = Inr special_primes"
    and "trial_division_batches S n (batches special_primes) = Some r"
    and "factor_large_semiprime S n max_prime max_attempts = Inr (stage, fs)"
  shows "prod_list fs = n"
proof -
  have nonneg: "\<not> n < 0" using assms(1) by simp
  from orchestrator_special [OF assms(4,5) nonneg assms(6,7), of max_attempts] assms(8)
  have "map_sum id (Pair SpecialPrimes) r = Inr (stage, fs)" by simp
  then have "r = Inr fs" by (rule map_sum_Pair_stage [THEN conjunct2])
  with assms(7) have run: "trial_division_batches S n (batches special_primes) = Some (Inr fs)"
    by simp
  have pos: "\<forall>b\<in>set (batches special_primes). \<forall>p\<in>set b. 0 < p"
  proof (intro ballI)
    fix b p assume "b \<in> set (batches special_primes)" "p \<in> set b"
    then have "p \<in> set special_primes" by (auto dest: batches_subset)
    with special_primes_positive [OF assms(6)] show "0 < p" by force
  qed
  from assms(3,2,1) pos run show ?thesis by (rule trial_division_batches_product)
qed

lemma finite_field_stage_product:
  assumes "0 < n" "squarefree n" "factorizer_contract S"
    and "sage_factor S n = None" "trial_division S n small_primes = None"
    and "generate_special_primes (min (isqrt n + 1) max_prime) = Inr special_primes"
    and "trial_division_batches S n (batches special_primes) = None"
    and "factor_large_semiprime S n max_prime max_attempts = Inr (stage, fs)" "fs \<noteq> []"
  shows "prod_list fs = n"
proof -
  have nonneg: "\<not> n < 0" using assms(1) by simp
  have unfolded: "factor_large_semiprime S n max_prime max_attempts =
      (case cyclotomic_p_loop S n max_attempts (every_tenth special_primes) of
         Some result \<Rightarrow> Inr (FiniteField, result)
       | None \<Rightarrow> Inr (NoFactors, []))"
    using assms(4,5) nonneg assms(6,7) by (rule orchestrator_finite_field)
  have run: "cyclotomic_p_loop S n max_attempts (every_tenth special_primes) = Some fs"
  proof (cases "cyclotomic_p_loop S n max_attempts (every_tenth special_primes)")
    case None
    then have "factor_large_semiprime S n max_prime max_attempts = Inr (NoFactors, [])"
      by (simp only: unfolded option.case)
    then have "Inr (stage, fs) = (Inr (NoFactors, []) :: py_error + stage \<times> int list)"
      by (simp only: assms(8))
    then have "fs = []" by simp
    with assms(9) show ?thesis by simp
  next
    case (Some result)
    then have "factor_large_semiprime S n max_prime max_attempts = Inr (FiniteField, result)"
      by (simp only: unfolded option.case)
    then have "Inr (stage, fs) = (Inr (FiniteField, result) :: py_error + stage \<times> int list)"
      by (simp only: assms(8))
    then have "result = fs" by simp
    with Some show ?thesis by simp
  qed
  have pos: "\<forall>p\<in>set (every_tenth special_primes). 0 < p"
  proof
    fix p assume "p \<in> set (every_tenth special_primes)"
    with every_tenth_subset have "p \<in> set special_primes" by (rule subsetD)
    with special_primes_positive [OF assms(6)] show "0 < p" by force
  qed
  from assms(3,2,1) pos run show ?thesis by (rule cyclotomic_p_loop_product)
qed

text \<open>
  Stage 1 returns the primes of the target without their exponents: for \<open>4 = 2 * 2\<close> the
  result is the nonempty list \<open>[2]\<close>, whose product is not 4.
\<close>

theorem orchestrator_drops_multiplicity:
  "factor_large_semiprime reference_sage 4 10000 3 = Inr (Direct, [2])
   \<and> \<not> verify_factorization 4 [2]"
proof
  show "factor_large_semiprime reference_sage 4 10000 3 = Inr (Direct, [2])"
    by code_simp
  show "\<not> verify_factorization 4 [2]"
    by (simp add: verify_factorization_def)
qed

text \<open>
  C1, amended. For every positive squarefree target for which the orchestrator returns
  a nonempty factor list, verification of that list against the target succeeds, given
  that the general factorizer returns correct factorizations.
\<close>

theorem squarefree_target_verifies:
  assumes "0 < n" "squarefree n" "factorizer_contract S"
    and "factor_large_semiprime S n max_prime max_attempts = Inr (stage, fs)" "fs \<noteq> []"
  shows "verify_factorization n fs"
proof -
  have "prod_list fs = n"
  proof (cases "sage_factor S n")
    case (Some factors)
    from orchestrator_direct [OF Some, of max_prime max_attempts] assms(4)
    have fs: "fs = map fst factors" by simp
    from assms(3,1) Some have "factorization_of n factors"
      unfolding factorizer_contract_def by blast
    with assms(2,1) show ?thesis unfolding fs by (rule squarefree_radical)
  next
    case None
    note no_direct = None
    show ?thesis
    proof (cases "trial_division S n small_primes")
      case (Some r)
      from assms(1,2,3) no_direct Some assms(4) show ?thesis
        by (rule small_stage_product)
    next
      case None
      note no_small = None
      show ?thesis
      proof (cases "generate_special_primes (min (isqrt n + 1) max_prime)")
        case (Inl e)
        then have "n < 0 \<or> generate_special_primes (min (isqrt n + 1) max_prime) = Inl e"
          by simp
        with no_direct no_small
        have "\<exists>e'. factor_large_semiprime S n max_prime max_attempts = Inl e'"
          by (rule orchestrator_error)
        then obtain e' where "factor_large_semiprime S n max_prime max_attempts = Inl e'" ..
        with assms(4) show ?thesis by simp
      next
        case (Inr special_primes)
        show ?thesis
        proof (cases "trial_division_batches S n (batches special_primes)")
          case (Some r)
          from assms(1,2,3) no_direct no_small Inr Some assms(4) show ?thesis
            by (rule special_stage_product)
        next
          case None
          from assms(1,2,3) no_direct no_small Inr None assms(4,5) show ?thesis
            by (rule finite_field_stage_product)
        qed
      qed
    qed
  qed
  then show ?thesis by (simp add: verify_factorization_prod_list)
qed

theorem squarefree_target_verifies_witness:
  "(0::int) < 15 \<and> squarefree 15 \<and> factorizer_contract reference_sage
   \<and> factor_large_semiprime reference_sage 15 10000 3 = Inr (Direct, [3, 5])
   \<and> [3, 5] \<noteq> ([] :: int list)
   \<and> verify_factorization 15 [3, 5]"
proof -
  have sq: "squarefree 15"
    unfolding squarefree_def set_upto [symmetric] by simp
  have run: "factor_large_semiprime reference_sage 15 10000 3 = Inr (Direct, [3, 5])"
    by code_simp
  from squarefree_target_verifies [OF _ sq reference_sage_contract run]
  have "verify_factorization 15 [3, 5]" by simp
  with sq run reference_sage_contract show ?thesis by simp
qed

text \<open>
  With a general factorizer that succeeds, the run on \<open>303 = 3 * 101\<close> ends in stage 1,
  not in stage 2.
\<close>

theorem orchestrator_303_ends_in_stage_1:
  "factor_large_semiprime reference_sage 303 10000 3 = Inr (Direct, [3, 101])
   \<and> factor_large_semiprime reference_sage 303 10000 3 \<noteq> Inr (SmallPrimes, [3, 101])"
proof -
  have "factor_large_semiprime reference_sage 303 10000 3 = Inr (Direct, [3, 101])"
    by code_simp
  then show ?thesis by simp
qed

text \<open>
  C4, amended. For the target 303 the orchestrator returns \<open>[3, 101]\<close>: from stage 2 (3 is
  found in the small-prime list and the cofactor 101 is prime) when the direct
  factorization of stage 1 raises, and from stage 1 when the direct factorization
  succeeds.
\<close>

theorem orchestrator_303:
  "(sage_factor S 303 = None \<longrightarrow> sage_is_prime S 101 \<longrightarrow>
      factor_large_semiprime S 303 max_prime max_attempts = Inr (SmallPrimes, [3, 101]))
   \<and> (sage_factor S 303 = Some [(3, 1), (101, 1)] \<longrightarrow>
      factor_large_semiprime S 303 max_prime max_attempts = Inr (Direct, [3, 101]))"
  by (simp add: factor_large_semiprime_def small_primes_def split_cofactor_def)

theorem orchestrator_303_witness:
  "(sage_factor failing_factorizer_sage 303 = None
    \<and> sage_is_prime failing_factorizer_sage 101
    \<and> factor_large_semiprime failing_factorizer_sage 303 10000 3 = Inr (SmallPrimes, [3, 101]))
   \<and> (sage_factor reference_sage 303 = Some [(3, 1), (101, 1)]
    \<and> factor_large_semiprime reference_sage 303 10000 3 = Inr (Direct, [3, 101]))"
proof -
  have a: "sage_factor failing_factorizer_sage 303 = None"
    by (simp add: failing_factorizer_sage_def)
  have b: "sage_is_prime failing_factorizer_sage 101"
    by code_simp
  have c: "sage_factor reference_sage 303 = Some [(3, 1), (101, 1)]"
    by code_simp
  show ?thesis
    using a b c orchestrator_303 [of failing_factorizer_sage 10000 3]
      orchestrator_303 [of reference_sage 10000 3]
    by simp
qed

section \<open>A prime above the field-size limit\<close>















section \<open>Properties of the probe\<close>

lemma say_factors: "say v msg st = Some st' \<Longrightarrow> st_factors st' = st_factors st"
  by (auto simp: say_def split: if_splits)

lemma say_examined: "say v msg st = Some st' \<Longrightarrow> st_examined st' = st_examined st"
  by (auto simp: say_def split: if_splits)

lemma say_silent [simp]: "say False msg st = Some st"
  by (simp add: say_def)


lemma factor_error_handler_factors [simp]:
  "st_factors (factor_error_handler v st) = st_factors st"
  by (simp add: factor_error_handler_def)

lemma factor_error_handler_examined [simp]:
  "st_examined (factor_error_handler v st) = st_examined st"
  by (simp add: factor_error_handler_def)

lemma field_error_handler_factors:
  "field_error_handler v q st = Inr st' \<Longrightarrow> st_factors st' = st_factors st"
  by (auto simp: field_error_handler_def dest: say_factors split: option.splits)

lemma field_error_handler_examined:
  "field_error_handler v q st = Inr st' \<Longrightarrow> st_examined st' = st_examined st"
  by (auto simp: field_error_handler_def dest: say_examined split: option.splits)


























section \<open>Properties of the pipeline\<close>

lemma process_factor_grows:
  "st_factors st \<subseteq> st_factors (process_factor p n v ft st)"
  by (auto simp: process_factor_def Let_def dest: say_factors split: option.splits)

lemma process_factor_adds:
  assumes "3 \<le> p" "\<forall>coeffs. fst ft = Some coeffs \<longrightarrow> monic_residue_poly p coeffs"
    and "x \<in> st_factors (process_factor p n v ft st)" "x \<notin> st_factors st"
  shows "2 \<le> x \<and> x dvd n"
proof (cases "fst ft")
  case None
  with assms(3,4) show ?thesis by (simp add: process_factor_def)
next
  case (Some coeffs)
  with assms(3,4) have x: "x = decode_coeffs p coeffs" "n mod x = 0"
    by (auto simp: process_factor_def Let_def dest: say_factors split: if_splits option.splits)
  have "2 \<le> x"
    unfolding x(1) using assms(1,2) Some by (intro decode_monic_residue_poly) simp_all
  with x(2) show ?thesis by auto
qed

lemma process_factor_admissible:
  assumes "3 \<le> p" "\<forall>coeffs. fst ft = Some coeffs \<longrightarrow> monic_residue_poly p coeffs"
    and "admissible n (st_factors st)"
  shows "admissible n (st_factors (process_factor p n v ft st))"
  unfolding admissible_def
proof
  fix x assume x: "x \<in> st_factors (process_factor p n v ft st)"
  show "2 \<le> x \<and> x dvd n"
  proof (cases "x \<in> st_factors st")
    case True
    with assms(3) show ?thesis by (simp add: admissible_def)
  next
    case False
    with assms(1,2) x show ?thesis by (rule process_factor_adds)
  qed
qed

lemma fold_process_factor_admissible:
  assumes "3 \<le> p"
  shows "\<forall>ft\<in>set fz. \<forall>coeffs. fst ft = Some coeffs \<longrightarrow> monic_residue_poly p coeffs \<Longrightarrow>
    admissible n (st_factors st) \<Longrightarrow>
    admissible n (st_factors (fold (process_factor p n v) fz st))"
proof (induction fz arbitrary: st)
  case Nil
  then show ?case by simp
next
  case (Cons ft fz)
  have "admissible n (st_factors (process_factor p n v ft st))"
    using assms Cons.prems by (intro process_factor_admissible) simp_all
  with Cons show ?case by simp
qed

lemma contract_factor_list:
  assumes "sympy_contract Y" "3 \<le> p" "sympy_factor_list Y p m = Some fz"
  shows "\<forall>ft\<in>set fz. \<forall>coeffs. fst ft = Some coeffs \<longrightarrow> monic_residue_poly p coeffs"
proof (intro ballI allI impI)
  fix ft coeffs assume ft: "ft \<in> set fz" "fst ft = Some coeffs"
  from assms have "\<forall>(factor_poly, multiplicity)\<in>set fz.
      \<forall>coeffs. factor_poly = Some coeffs \<longrightarrow> monic_residue_poly p coeffs"
    unfolding sympy_contract_def by blast
  with ft show "monic_residue_poly p coeffs"
    by (cases ft) auto
qed

lemma probe_loop_admissible:
  assumes "sympy_contract Y" "3 \<le> p"
  shows "admissible n (st_factors st) \<Longrightarrow>
    admissible n (st_factors (snd (probe_loop Y p q n v ms st)))"
proof (induction ms arbitrary: st)
  case Nil
  then show ?case by simp
next
  case (Cons m ms)
  let ?s = "st\<lparr>st_examined := st_examined st @ [m]\<rparr>"
  show ?case
  proof (cases "say v (OverGF q m) ?s")
    case None
    with Cons.prems show ?thesis by (simp add: Let_def)
  next
    case (Some s1)
    have a1: "admissible n (st_factors s1)"
      using Cons.prems say_factors [OF Some] by simp
    show ?thesis
    proof (cases "sympy_factor_list Y p m")
      case None
      show ?thesis
      proof (cases "say v (ErrorFactoringPolynomial m) s1")
        case no_print: None
        with None Some a1 show ?thesis by (simp add: Let_def)
      next
        case (Some s2)
        have "admissible n (st_factors s2)"
          using a1 say_factors [OF Some] by simp
        then have "admissible n (st_factors (snd (probe_loop Y p q n v ms s2)))"
          by (rule Cons.IH)
        with None Some \<open>say v (OverGF q m) ?s = Some s1\<close> show ?thesis
          by (simp add: Let_def)
      qed
    next
      case factored: (Some factorization)
      have a2: "admissible n (st_factors (fold (process_factor p n v) factorization s1))"
        using assms(2) contract_factor_list [OF assms factored] a1
        by (rule fold_process_factor_admissible)
      from Cons.IH [OF a2] a2 factored Some show ?thesis
        by (simp add: Let_def)
    qed
  qed
qed

lemma probe_body_factors:
  assumes "probe_body Y p k q n v st = Inr st'"
  shows "st_factors st' = st_factors st
    \<or> (0 < p \<and> st_factors st' = st_factors (snd (probe_loop Y p q n v [3..p] st)))"
  using assms
  by (auto simp: probe_body_def dest: say_factors field_error_handler_factors
      split: if_splits option.splits prod.splits bool.splits)

lemma probe_factors:
  assumes "laplacian_eigenfunction_approach Y (p, k, n, v) = Inr st'"
  shows "st_factors st' = {}
    \<or> (\<exists>q. st_factors st' = st_factors (snd (probe_loop Y p q n v [3..p]
          \<lparr>st_factors = {}, st_printed = [], st_examined = []\<rparr>)))"
proof (cases "k < 0")
  case True
  with assms have "st_factors st' = {}"
    by (auto simp: laplacian_eigenfunction_approach_def Let_def
        dest: say_factors field_error_handler_factors split: if_splits option.splits)
  then show ?thesis by simp
next
  case False
  with assms have "probe_body Y p k (p ^ nat k) n v
      \<lparr>st_factors = {}, st_printed = [], st_examined = []\<rparr> = Inr st'"
    by (simp add: laplacian_eigenfunction_approach_def Let_def)
  from probe_body_factors [OF this] show ?thesis by auto
qed

lemma probe_admissible:
  assumes "sympy_contract Y" "laplacian_eigenfunction_approach Y (p, k, n, v) = Inr st"
  shows "admissible n (st_factors st)"
proof -
  let ?st = "\<lparr>st_factors = {}, st_printed = [], st_examined = []\<rparr>"
  have loop: "admissible n (st_factors (snd (probe_loop Y p q n v [3..p] ?st)))" for q
  proof (cases "3 \<le> p")
    case True
    have "admissible n (st_factors ?st)" by (simp add: admissible_def)
    with assms(1) True show ?thesis by (rule probe_loop_admissible)
  next
    case False
    then have "[3..p] = []" by simp
    then show ?thesis by (simp add: admissible_def)
  qed
  from probe_factors [OF assms(2)] loop show ?thesis
    by (auto simp: admissible_def)
qed

lemma pool_map_results:
  "pool_map f xs = Inr ys \<Longrightarrow> y \<in> set ys \<Longrightarrow> \<exists>x\<in>set xs. f x = Inr y"
proof (induction xs arbitrary: ys)
  case Nil
  then show ?case by simp
next
  case (Cons x xs)
  then show ?case
    by (auto split: sum.splits)
qed

lemma probe_tasks_shape:
  "args \<in> set (probe_tasks Y n mpl F) \<Longrightarrow> \<exists>p k. args = (p, k, n, False)"
  by (auto simp: probe_tasks_def Let_def)

lemma states_after_nonempty [simp]: "states_after f xs s \<noteq> []"
  by (cases xs) simp_all

lemma states_after_grows:
  assumes "\<And>x s. s \<subseteq> f x s"
  shows "\<forall>F\<in>set (states_after f xs s). s \<subseteq> F"
proof (induction xs arbitrary: s)
  case Nil
  show ?case by simp
next
  case (Cons x xs)
  have "s \<subseteq> f x s" by (rule assms)
  with Cons [of "f x s"] show ?case by auto
qed

lemma states_after_chain:
  assumes "\<And>x s. s \<subseteq> f x s"
  shows "sorted_wrt (\<subseteq>) (states_after f xs s)"
proof (induction xs arbitrary: s)
  case Nil
  show ?case by simp
next
  case (Cons x xs)
  have "\<forall>F\<in>set (states_after f xs (f x s)). f x s \<subseteq> F"
    using assms by (rule states_after_grows)
  moreover have "s \<subseteq> f x s" by (rule assms)
  ultimately show ?case using Cons by auto
qed

lemma states_after_below_last:
  assumes "\<And>x s. s \<subseteq> f x s"
  shows "\<forall>G\<in>set (states_after f xs s). G \<subseteq> last (states_after f xs s)"
proof (induction xs arbitrary: s)
  case Nil
  show ?case by simp
next
  case (Cons x xs)
  let ?rest = "states_after f xs (f x s)"
  have "last ?rest \<in> set ?rest" by simp
  moreover have "\<forall>F\<in>set ?rest. f x s \<subseteq> F"
    using assms by (rule states_after_grows)
  ultimately have "f x s \<subseteq> last ?rest" by blast
  moreover have "s \<subseteq> f x s" by (rule assms)
  ultimately have "s \<subseteq> last ?rest" by blast
  with Cons [of "f x s"] show ?case by simp
qed

lemma states_after_invariant:
  assumes "\<And>x s. x \<in> set xs \<Longrightarrow> P s \<Longrightarrow> P (f x s)"
  shows "P s \<Longrightarrow> \<forall>F\<in>set (states_after f xs s). P F"
  using assms
proof (induction xs arbitrary: s)
  case Nil
  then show ?case by simp
next
  case (Cons x xs)
  have "P (f x s)" using Cons.prems by simp
  then have "\<forall>F\<in>set (states_after f xs (f x s)). P F"
    using Cons.prems by (intro Cons.IH) simp_all
  with Cons.prems(1) show ?case by simp
qed

lemma states_after_last: "last (states_after f xs s) = fold f xs s"
  by (induction xs arbitrary: s) simp_all

lemma initial_additions_admissible:
  assumes "sympy_contract Y" "1 \<le> n" "initial_additions Y n = Some additions"
  shows "\<forall>v\<in>set additions. 2 \<le> v \<and> v dvd n"
proof (cases "sympy_isprime Y n")
  case True
  with assms(1) have "2 \<le> n" unfolding sympy_contract_def by blast
  with True assms(3) show ?thesis by (auto simp: initial_additions_def)
next
  case False
  with assms(3) obtain items where items: "sympy_factorint Y n = Some items"
    "additions = concat (map (\<lambda>(p, e). replicate e p) items)"
    by (auto simp: initial_additions_def split: option.splits)
  from assms(1,2) items(1) have "\<forall>(p, e)\<in>set items. 2 \<le> p \<and> p dvd n"
    unfolding sympy_contract_def by blast
  then show ?thesis unfolding items(2) by fastforce
qed

lemma table_sympy_contract: "sympy_contract table_sympy"
  unfolding sympy_contract_def
proof (intro conjI allI impI)
  fix x assume "sympy_isprime table_sympy x"
  then show "2 \<le> x" by (simp add: table_sympy_def reference_is_prime_def)
next
  fix n items assume n: "1 \<le> n" "sympy_factorint table_sympy n = Some items"
  then have "reference_factor n = Some items"
    by (simp add: table_sympy_def reference_factorint_def reference_factor_def)
  with n(1) have "factorization_of n items"
    by (intro reference_factor_factorization) simp_all
  then show "\<forall>(p, e)\<in>set items. 2 \<le> p \<and> p dvd n"
    using factorization_of_divides by blast
next
  fix p m factorization
  assume "3 \<le> p" "sympy_factor_list table_sympy p m = Some factorization"
  then show "\<forall>(factor_poly, multiplicity)\<in>set factorization.
      \<forall>coeffs. factor_poly = Some coeffs \<longrightarrow> monic_residue_poly p coeffs"
    by (auto simp: table_sympy_def monic_residue_poly_def split: if_splits)
qed

text \<open>
  The history ends with the set that \<open>find_factors_using_finite_fields\<close> returns in
  ascending order.
\<close>

lemma last_history_append:
  "last (states_after g xs s0 @ tl (states_after f rs (fold g xs s0))) = fold f rs (fold g xs s0)"
proof (cases rs)
  case Nil
  then show ?thesis by (simp add: states_after_last)
next
  case (Cons r rs')
  then show ?thesis by (simp add: states_after_last)
qed

lemma find_factors_last_history:
  "find_factors_using_finite_fields Y n max_power_list
     = map_sum id (\<lambda>history. sorted_list_of_set (last history)) (factor_set_history Y n max_power_list)"
  by (auto simp: find_factors_using_finite_fields_def factor_set_history_def Let_def
      states_after_last last_history_append split: option.splits sum.splits)

text \<open>
  C6. During a pipeline run on a positive target \<open>n\<close> the factor set only grows: every
  value it takes is contained in all later ones, and all its elements are at least 2 and
  divide \<open>n\<close>. Inside a probe, each step on a factor polynomial only adds to the
  probe's set, and what it adds is at least 2 and divides \<open>n\<close>. The collaborators are
  assumed to meet their contract.
\<close>

theorem factor_set_grows:
  assumes "1 \<le> n" "sympy_contract Y" "factor_set_history Y n max_power_list = Inr history"
  shows "sorted_wrt (\<subseteq>) history
    \<and> (\<forall>F\<in>set history. \<forall>v\<in>F. 2 \<le> v \<and> v dvd n)
    \<and> (3 \<le> p \<longrightarrow> (\<forall>coeffs. fst fact_tuple = Some coeffs \<longrightarrow> monic_residue_poly p coeffs) \<longrightarrow>
         st_factors st \<subseteq> st_factors (process_factor p n verbose fact_tuple st)
         \<and> (\<forall>v\<in>st_factors (process_factor p n verbose fact_tuple st) - st_factors st.
               2 \<le> v \<and> v dvd n))"
proof (intro conjI impI)
  show "st_factors st \<subseteq> st_factors (process_factor p n verbose fact_tuple st)"
    by (rule process_factor_grows)
  show "\<forall>v\<in>st_factors (process_factor p n verbose fact_tuple st) - st_factors st. 2 \<le> v \<and> v dvd n"
    if "3 \<le> p" "\<forall>coeffs. fst fact_tuple = Some coeffs \<longrightarrow> monic_residue_poly p coeffs"
    using that process_factor_adds [of p fact_tuple _ n verbose st] by blast
next
  have main: "sorted_wrt (\<subseteq>) history \<and> (\<forall>F\<in>set history. admissible n F)"
  proof (cases "initial_additions Y n")
    case None
    with assms(3) have "history = [{}]" by (simp add: factor_set_history_def)
    then show ?thesis by (simp add: admissible_def)
  next
    case (Some additions)
    let ?h1 = "states_after insert additions {}"
    let ?F = "last ?h1"
    let ?upd = "\<lambda>result factors. factors \<union> st_factors result"
    from Some assms(3) obtain results where
      results: "pool_map (laplacian_eigenfunction_approach Y) (probe_tasks Y n max_power_list ?F) = Inr results"
      and history: "history = ?h1 @ tl (states_after ?upd results ?F)"
      by (auto simp: factor_set_history_def Let_def split: sum.splits)
    have adds: "\<forall>v\<in>set additions. 2 \<le> v \<and> v dvd n"
      using assms(2,1) Some by (rule initial_additions_admissible)
    have h1_adm: "\<forall>F\<in>set ?h1. admissible n F"
    proof (rule states_after_invariant)
      show "admissible n {}" by (simp add: admissible_def)
      show "admissible n (insert x s)" if "x \<in> set additions" "admissible n s" for x s
        using that adds by (simp add: admissible_def)
    qed
    have F_adm: "admissible n ?F"
      using h1_adm last_in_set [of ?h1] by simp
    have res_adm: "admissible n (st_factors r)" if "r \<in> set results" for r
    proof -
      from pool_map_results [OF results that] obtain args where
        args: "args \<in> set (probe_tasks Y n max_power_list ?F)"
          "laplacian_eigenfunction_approach Y args = Inr r" by blast
      from probe_tasks_shape [OF args(1)] obtain p' k' where "args = (p', k', n, False)" by blast
      with args(2) assms(2) show ?thesis by (auto intro: probe_admissible)
    qed
    have h2_adm: "\<forall>G\<in>set (states_after ?upd results ?F). admissible n G"
    proof (rule states_after_invariant)
      show "admissible n ?F" by (rule F_adm)
      show "admissible n (s \<union> st_factors x)" if "x \<in> set results" "admissible n s" for x s
        using that res_adm [of x] by (auto simp: admissible_def)
    qed
    have h1_chain: "sorted_wrt (\<subseteq>) ?h1"
      by (rule states_after_chain) auto
    have h2_chain: "sorted_wrt (\<subseteq>) (states_after ?upd results ?F)"
      by (rule states_after_chain) auto
    have h2_grows: "\<forall>G\<in>set (states_after ?upd results ?F). ?F \<subseteq> G"
      by (rule states_after_grows) auto
    have h1_below: "\<forall>G\<in>set ?h1. G \<subseteq> ?F"
      by (rule states_after_below_last) auto
    have tl_sub: "set (tl (states_after ?upd results ?F)) \<subseteq> set (states_after ?upd results ?F)"
      by (simp add: list.set_sel(2) subsetI)
    have tl_chain: "sorted_wrt (\<subseteq>) (tl (states_after ?upd results ?F))"
      using h2_chain by (cases "states_after ?upd results ?F") simp_all
    have "sorted_wrt (\<subseteq>) history"
      unfolding history sorted_wrt_append
      using h1_chain tl_chain h1_below h2_grows tl_sub by blast
    moreover have "\<forall>F\<in>set history. admissible n F"
      unfolding history using h1_adm h2_adm tl_sub by auto
    ultimately show ?thesis by simp
  qed
  then show "sorted_wrt (\<subseteq>) history" by simp
  from main show "\<forall>F\<in>set history. \<forall>v\<in>F. 2 \<le> v \<and> v dvd n"
    by (simp add: admissible_def)
qed

theorem factor_set_grows_witness:
  "(1::int) \<le> 35 \<and> sympy_contract table_sympy
   \<and> factor_set_history table_sympy 35 [1] = Inr [{}, {5}, {5, 7}, {5, 7}, {5, 7}]
   \<and> sorted_wrt (\<subseteq>) [{}, {5}, {5, 7}, {5, 7}, {5, 7 :: int}]
   \<and> (2::int) \<le> 7 \<and> (7::int) dvd 35
   \<and> (3::int) \<le> 5 \<and> monic_residue_poly 5 [1, 2]
   \<and> st_factors (process_factor 5 35 False (Some [1, 2], 1)
         \<lparr>st_factors = {}, st_printed = [], st_examined = []\<rparr>) = {7}"
proof -
  let ?h = "[{}, {5}, {5, 7}, {5, 7}, {5, 7 :: int}]"
  let ?st = "\<lparr>st_factors = {}, st_printed = [], st_examined = []\<rparr>"
  have run: "factor_set_history table_sympy 35 [1] = Inr ?h"
    by code_simp
  have poly: "monic_residue_poly 5 [1, 2]"
    by (simp add: monic_residue_poly_def)
  have step: "st_factors (process_factor 5 35 False (Some [1, 2], 1) ?st) = {7}"
    by (simp add: process_factor_def decode_coeffs_def say_def)
  have le: "(1::int) \<le> 35" by simp
  note main = factor_set_grows [OF le table_sympy_contract run, of 5 "(Some [1, 2], 1)" ?st False]
  have "sorted_wrt (\<subseteq>) ?h" using main by (rule conjunct1)
  moreover have "\<forall>F\<in>set ?h. \<forall>v\<in>F. 2 \<le> v \<and> v dvd 35"
    using main [THEN conjunct2] by (rule conjunct1)
  then have "(2::int) \<le> 7 \<and> (7::int) dvd 35" by simp
  ultimately show ?thesis
    using run poly step table_sympy_contract by simp
qed

end
